theory Spec2Isabelle
  imports Main "HOL-Library.Multiset"
begin

section \<open>Errors and call outcomes\<close>

text \<open>
  The five sentinel errors declared by the package (csv.go, lines 21 to 25). An error
  produced by the encoding/csv reader is a value of another package; it is carried as
  \<open>ReaderError\<close> with the reader's message.
\<close>

datatype error =
    ErrInvalidHeaderSize
  | ErrInvalidHeaderValues
  | ErrMissingRequiredTag
  | ErrDuplicatedTag
  | ErrUninitializedRecords
  | ReaderError string

text \<open>A call either panics or returns its (tuple of) results.\<close>

datatype 'a outcome = Panic | Return 'a

section \<open>Configuration\<close>

record MarshalConfig =
  SkipValidation :: bool

record ValidationConfig =
  SkipValidation :: bool

section \<open>The type parameter: struct descriptors and struct values\<close>

text \<open>
  What reflection reads of the type parameter \<open>T\<close>: the declared fields in order, each
  with its name and its struct tag. \<open>T\<close> is a struct type (\<open>NumField\<close> panics on any
  other kind) whose fields are exported fields of kind string, the only ones
  \<open>SetString\<close> accepts. A struct tag is a list of key/value pairs; \<open>Tag_Get\<close>
  returns the value of the first pair with the key, and the empty string when the key is
  absent.
\<close>

type_synonym StructTag = "(string \<times> string) list"

record StructField =
  Name :: string
  Tag :: StructTag

type_synonym StructType = "StructField list"

definition csvColumnNameTag :: string where
  "csvColumnNameTag = ''csv_column_name''"

definition Tag_Get :: "StructTag \<Rightarrow> string \<Rightarrow> string" where
  "Tag_Get tag key = (case map_of tag key of None \<Rightarrow> [] | Some v \<Rightarrow> v)"

definition NumField :: "StructType \<Rightarrow> nat" where
  "NumField T = length T"

text \<open>The column tag of a field, as both reflection loops read it.\<close>

definition column_tag :: "StructField \<Rightarrow> string" where
  "column_tag f = Tag_Get (Tag f) csvColumnNameTag"

text \<open>
  A value of \<open>T\<close>: the fields in declaration order, each with its current string.
  \<open>var model T\<close> is the zero value, every field the empty string.
\<close>

type_synonym struct_value = "(string \<times> string) list"

definition zero_value :: "StructType \<Rightarrow> struct_value" where
  "zero_value T = map (\<lambda>f. (Name f, [])) T"

text \<open>
  \<open>reflect.ValueOf(&model).Elem().FieldByName(modelField).SetString(data)\<close>:
  \<open>FieldByName\<close> yields the zero \<open>Value\<close> when the struct has no field of that name,
  and \<open>SetString\<close> on the zero \<open>Value\<close> panics. Otherwise the first field of that name
  is overwritten.
\<close>

fun put_field :: "string \<Rightarrow> string \<Rightarrow> struct_value \<Rightarrow> struct_value" where
  "put_field k d [] = []"
| "put_field k d ((k', v) # rest) =
     (if k' = k then (k', d) # rest else (k', v) # put_field k d rest)"

definition set_field :: "struct_value \<Rightarrow> string \<Rightarrow> string \<Rightarrow> struct_value outcome" where
  "set_field model modelField data =
     (if modelField \<in> set (map fst model) then Return (put_field modelField data model)
      else Panic)"

section \<open>strings.EqualFold\<close>

text \<open>
  \<open>strings.EqualFold\<close> starts with a byte loop over the common length of the two
  strings. While both bytes are ASCII they agree when they are equal or when the smaller
  is an upper-case letter and the larger is that letter plus \<open>'a' - 'A'\<close>; when the loop
  ends the two lengths must be equal. At the first position where one of the two bytes is
  not ASCII (\<open>sr|tr >= utf8.RuneSelf\<close>) the function jumps to its rune loop on the two
  remaining suffixes, which decodes UTF-8 and compares runes under Unicode simple case
  folding. The rune loop is code of the standard library, not of this repository: it is
  the parameter \<open>uf\<close>, and every statement below holds whatever it answers.
\<close>

type_synonym unicode_fold = "string \<Rightarrow> string \<Rightarrow> bool"

definition fold_eq_byte :: "char \<Rightarrow> char \<Rightarrow> bool" where
  "fold_eq_byte sr tr =
     (let a = (of_char sr :: nat); b = (of_char tr :: nat);
          lo = min a b; hi = max a b
      in a = b \<or> (65 \<le> lo \<and> lo \<le> 90 \<and> hi = lo + 32))"

fun EqualFold :: "unicode_fold \<Rightarrow> string \<Rightarrow> string \<Rightarrow> bool" where
  "EqualFold uf [] [] = True"
| "EqualFold uf (sr # s) (tr # t) =
     (if 128 \<le> (of_char sr :: nat) \<or> 128 \<le> (of_char tr :: nat) then uf (sr # s) (tr # t)
      else fold_eq_byte sr tr \<and> EqualFold uf s t)"
| "EqualFold uf _ _ = False"

text \<open>
  A rune loop for the concrete examples: their strings are ASCII and never reach it. It
  accepts identical suffixes only.
\<close>

definition exact_tail :: unicode_fold where
  "exact_tail s t = (s = t)"




section \<open>The helper\<close>

record csvHelperImpl =
  records :: "string list list"
  err :: "error option"

text \<open>\<open>New\<close>: the zero struct, no records (a nil slice) and a nil error.\<close>

definition New :: csvHelperImpl where
  "New = \<lparr>records = [], err = None\<rparr>"

text \<open>
  \<open>ReadAll\<close> has a value receiver: it assigns the reader's two results to the fields
  of its copy and returns the copy. The encoding/csv reader is a parameter \<open>rd\<close>,
  giving the rows and the reader's error message, if any.
\<close>

type_synonym 'b reader = "'b \<Rightarrow> string list list \<times> string option"

definition ReadAll :: "'b reader \<Rightarrow> csvHelperImpl \<Rightarrow> 'b \<Rightarrow> csvHelperImpl" where
  "ReadAll rd c buffer =
     c\<lparr>records := fst (rd buffer), err := map_option ReaderError (snd (rd buffer))\<rparr>"

subsection \<open>Validation\<close>

definition validateIntegrity :: "csvHelperImpl \<Rightarrow> error option" where
  "validateIntegrity c =
     (case err c of
        Some e \<Rightarrow> Some e
      | None \<Rightarrow> if length (records c) = 0 then Some ErrUninitializedRecords else None)"

text \<open>
  The loop of \<open>validateModelTags\<close>: \<open>tags\<close> is the Go map from tag to field index,
  kept as an association list with one pair per key, so that \<open>len(tags)\<close> is its length.
\<close>

fun map_store :: "'k \<Rightarrow> 'v \<Rightarrow> ('k \<times> 'v) list \<Rightarrow> ('k \<times> 'v) list" where
  "map_store k v [] = [(k, v)]"
| "map_store k v ((k', v') # rest) =
     (if k' = k then (k, v) # rest else (k', v') # map_store k v rest)"

fun tags_loop :: "StructType \<Rightarrow> nat \<Rightarrow> (string \<times> nat) list \<Rightarrow> error + (string \<times> nat) list" where
  "tags_loop [] i tags = Inr tags"
| "tags_loop (f # fs) i tags =
     (let tag = Tag_Get (Tag f) csvColumnNameTag
      in if tag = [] then Inl ErrMissingRequiredTag
         else tags_loop fs (Suc i) (map_store tag i tags))"

definition validateModelTags :: "StructType \<Rightarrow> error option" where
  "validateModelTags T =
     (let modelSize = NumField T
      in case tags_loop T 0 [] of
           Inl e \<Rightarrow> Some e
         | Inr tags \<Rightarrow> if length tags \<noteq> modelSize then Some ErrDuplicatedTag else None)"

definition validate :: "StructType \<Rightarrow> ValidationConfig \<Rightarrow> csvHelperImpl \<Rightarrow> error option" where
  "validate T cfg c =
     (case validateIntegrity c of
        Some e \<Rightarrow> Some e
      | None \<Rightarrow>
          if \<not> ValidationConfig.SkipValidation cfg then
            (case validateModelTags T of
               Some e \<Rightarrow> Some e
             | None \<Rightarrow>
                 (let csvHeaders = records c ! 0; modelSize = NumField T
                  in if length csvHeaders \<noteq> modelSize then Some ErrInvalidHeaderSize
                     else None))
          else None)"

subsection \<open>Accessors\<close>

definition Validate :: "StructType \<Rightarrow> csvHelperImpl \<Rightarrow> bool \<times> error option" where
  "Validate T c =
     (case validate T \<lparr>ValidationConfig.SkipValidation = False\<rparr> c of
        Some e \<Rightarrow> (False, Some e)
      | None \<Rightarrow> (True, None))"

definition Records :: "StructType \<Rightarrow> csvHelperImpl \<Rightarrow> string list list \<times> error option" where
  "Records T c =
     (case validate T \<lparr>ValidationConfig.SkipValidation = False\<rparr> c of
        Some e \<Rightarrow> ([], Some e)
      | None \<Rightarrow> (records c, err c))"

definition Error :: "StructType \<Rightarrow> csvHelperImpl \<Rightarrow> error option" where
  "Error T c =
     (case validate T \<lparr>ValidationConfig.SkipValidation = False\<rparr> c of
        Some e \<Rightarrow> Some e
      | None \<Rightarrow> err c)"

subsection \<open>Header resolution\<close>

text \<open>Reading a Go map: the zero value (the empty string) when the key is absent.\<close>

definition map_get :: "('k \<times> string) list \<Rightarrow> 'k \<Rightarrow> string" where
  "map_get m k = (case map_of m k of None \<Rightarrow> [] | Some v \<Rightarrow> v)"

text \<open>
  First loop of \<open>mapIndexToField\<close>: the field names in declaration order and the Go map
  from field name to column tag.
\<close>

fun collect_fields ::
  "StructType \<Rightarrow> string list \<Rightarrow> (string \<times> string) list \<Rightarrow> string list \<times> (string \<times> string) list"
where
  "collect_fields [] modelFieldNames modelFieldsToColumns =
     (modelFieldNames, modelFieldsToColumns)"
| "collect_fields (f # fs) modelFieldNames modelFieldsToColumns =
     (let modelColumnName = Tag_Get (Tag f) csvColumnNameTag;
          modelFieldName = Name f
      in collect_fields fs (modelFieldNames @ [modelFieldName])
           (map_store modelFieldName modelColumnName modelFieldsToColumns))"

text \<open>
  Inner loop, \<open>for j, header := range csvHeaders\<close>, for one field: every column whose
  header equals the field's column tag under \<open>EqualFold\<close> is mapped to the field name,
  overwriting an earlier entry for that column.
\<close>

fun scan_headers ::
  "unicode_fold \<Rightarrow> string \<Rightarrow> string \<Rightarrow> nat \<Rightarrow> string list \<Rightarrow> (nat \<rightharpoonup> string) \<Rightarrow>
     (nat \<rightharpoonup> string)"
where
  "scan_headers uf col fname j [] indexToFieldName = indexToFieldName"
| "scan_headers uf col fname j (header # hs) indexToFieldName =
     scan_headers uf col fname (Suc j) hs
       (if EqualFold uf col header then indexToFieldName(j \<mapsto> fname) else indexToFieldName)"

text \<open>
  Outer loop, \<open>for i := 0; i < len(modelFieldsToColumns); i++\<close>. The bound is the size
  of the map, and \<open>modelFieldNames[i]\<close> is in range because the map has at most as many
  keys as there are names.
\<close>

definition mapIndexToField ::
  "unicode_fold \<Rightarrow> StructType \<Rightarrow> string list list \<Rightarrow> (nat \<rightharpoonup> string) \<times> error option"
where
  "mapIndexToField uf T csv =
     (let (modelFieldNames, modelFieldsToColumns) = collect_fields T [] [];
          csvHeaders = csv ! 0
      in (foldl (\<lambda>indexToFieldName i.
                   scan_headers uf (map_get modelFieldsToColumns (modelFieldNames ! i))
                     (modelFieldNames ! i) 0 csvHeaders indexToFieldName)
            Map.empty [0 ..< length modelFieldsToColumns],
          None))"

subsection \<open>Row binding\<close>

text \<open>
  Inner loop of \<open>assign\<close>, \<open>for index, data := range record\<close>: the map is read at the
  cell's index (the empty string when the index has no entry) and the field of that
  name is set. One row, from the zero value, gives one struct value.
\<close>

fun assign_cells :: "(nat \<rightharpoonup> string) \<Rightarrow> nat \<Rightarrow> string list \<Rightarrow> struct_value \<Rightarrow> struct_value outcome" where
  "assign_cells indexToFieldName index [] model = Return model"
| "assign_cells indexToFieldName index (data # rest) model =
     (let modelField = (case indexToFieldName index of None \<Rightarrow> [] | Some n \<Rightarrow> n)
      in case set_field model modelField data of
           Panic \<Rightarrow> Panic
         | Return model' \<Rightarrow> assign_cells indexToFieldName (Suc index) rest model')"

definition bind_row :: "StructType \<Rightarrow> (nat \<rightharpoonup> string) \<Rightarrow> string list \<Rightarrow> struct_value outcome" where
  "bind_row T indexToFieldName rec = assign_cells indexToFieldName 0 rec (zero_value T)"

text \<open>Outer loop of \<open>assign\<close>, \<open>for index, record := range records\<close>; row 0 is skipped.\<close>

fun assign_rows ::
  "StructType \<Rightarrow> (nat \<rightharpoonup> string) \<Rightarrow> nat \<Rightarrow> string list list \<Rightarrow> struct_value list \<Rightarrow> struct_value list outcome"
where
  "assign_rows T indexToFieldName index [] output = Return output"
| "assign_rows T indexToFieldName index (rec # rest) output =
     (if index = 0 then assign_rows T indexToFieldName (Suc index) rest output
      else case bind_row T indexToFieldName rec of
             Panic \<Rightarrow> Panic
           | Return model \<Rightarrow> assign_rows T indexToFieldName (Suc index) rest (output @ [model]))"

definition assign ::
  "StructType \<Rightarrow> string list list \<Rightarrow> (nat \<rightharpoonup> string) \<Rightarrow> (struct_value list \<times> error option) outcome"
where
  "assign T recs indexToFieldName =
     (case assign_rows T indexToFieldName 0 recs [] of
        Panic \<Rightarrow> Panic
      | Return output \<Rightarrow> Return (output, None))"

subsection \<open>Marshal\<close>

definition Marshal ::
  "unicode_fold \<Rightarrow> StructType \<Rightarrow> MarshalConfig \<Rightarrow> csvHelperImpl \<Rightarrow> (struct_value list \<times> error option) outcome"
where
  "Marshal uf T cfg c =
     (case validate T \<lparr>ValidationConfig.SkipValidation = MarshalConfig.SkipValidation cfg\<rparr> c of
        Some e \<Rightarrow> Return ([], Some e)
      | None \<Rightarrow>
          (case mapIndexToField uf T (records c) of
             (indexToFieldName, Some e) \<Rightarrow> Return ([], Some e)
           | (indexToFieldName, None) \<Rightarrow> assign T (records c) indexToFieldName))"

section \<open>Handles\<close>

text \<open>
  A \<open>CsvHelper[T]\<close> interface value holds either the pointer that \<open>New\<close> returns or the
  struct copy that \<open>ReadAll\<close> returns. The heap maps addresses to helper structs. Every
  method of the interface has a value receiver, so a call through a handle runs the
  method on a copy of the struct the handle denotes.
\<close>

datatype handle = PtrTo nat | ValueOf csvHelperImpl

record heap =
  cells :: "nat \<Rightarrow> csvHelperImpl"
  next_free :: nat

definition load :: "heap \<Rightarrow> handle \<Rightarrow> csvHelperImpl" where
  "load hp h = (case h of PtrTo a \<Rightarrow> cells hp a | ValueOf c \<Rightarrow> c)"

definition New_handle :: "heap \<Rightarrow> heap \<times> handle" where
  "New_handle hp =
     (hp\<lparr>cells := (cells hp)(next_free hp := New), next_free := Suc (next_free hp)\<rparr>,
      PtrTo (next_free hp))"

definition ReadAll_handle :: "'b reader \<Rightarrow> heap \<Rightarrow> handle \<Rightarrow> 'b \<Rightarrow> heap \<times> handle" where
  "ReadAll_handle rd hp h buffer = (hp, ValueOf (ReadAll rd (load hp h) buffer))"

section \<open>Sequences of calls\<close>

text \<open>
  A caller that keeps the handle returned by each \<open>ReadAll\<close>, as the tests do
  (\<open>csvHelper = csvHelper.ReadAll(...)\<close>). The accessors run on a copy and assign to no
  field, so they leave the helper as it was.
\<close>

datatype 'b call =
    CallReadAll 'b
  | CallValidate
  | CallRecords
  | CallError
  | CallMarshal MarshalConfig

datatype reply =
    ReadAllReply
  | ValidateReply "bool \<times> error option"
  | RecordsReply "string list list \<times> error option"
  | ErrorReply "error option"
  | MarshalReply "(struct_value list \<times> error option) outcome"

fun step ::
  "unicode_fold \<Rightarrow> 'b reader \<Rightarrow> StructType \<Rightarrow> csvHelperImpl \<Rightarrow> 'b call \<Rightarrow> csvHelperImpl \<times> reply"
where
  "step uf rd T c (CallReadAll buffer) = (ReadAll rd c buffer, ReadAllReply)"
| "step uf rd T c CallValidate = (c, ValidateReply (Validate T c))"
| "step uf rd T c CallRecords = (c, RecordsReply (Records T c))"
| "step uf rd T c CallError = (c, ErrorReply (Error T c))"
| "step uf rd T c (CallMarshal cfg) = (c, MarshalReply (Marshal uf T cfg c))"

fun run ::
  "unicode_fold \<Rightarrow> 'b reader \<Rightarrow> StructType \<Rightarrow> csvHelperImpl \<Rightarrow> 'b call list \<Rightarrow>
     csvHelperImpl \<times> reply list"
where
  "run uf rd T c [] = (c, [])"
| "run uf rd T c (x # xs) =
     (let (c', r) = step uf rd T c x; (c'', rs) = run uf rd T c' xs in (c'', r # rs))"

text \<open>The error a reply carries, for the replies of the four accessors.\<close>

fun reply_error :: "reply \<Rightarrow> error option" where
  "reply_error ReadAllReply = None"
| "reply_error (ValidateReply (ok, e)) = e"
| "reply_error (RecordsReply (recs, e)) = e"
| "reply_error (ErrorReply e) = e"
| "reply_error (MarshalReply Panic) = None"
| "reply_error (MarshalReply (Return (out, e))) = e"

fun is_read :: "'b call \<Rightarrow> bool" where
  "is_read (CallReadAll buffer) = True"
| "is_read _ = False"

section \<open>Concrete models and inputs\<close>

text \<open>The struct of the README and the models and the file of the package's tests.\<close>

definition Person :: StructType where
  "Person =
     [\<lparr>Name = ''Name'', Tag = [(''csv_column_name'', ''name'')]\<rparr>,
      \<lparr>Name = ''LastName'', Tag = [(''csv_column_name'', ''lastname'')]\<rparr>]"

definition validModelT :: StructType where
  "validModelT =
     [\<lparr>Name = ''Field1'', Tag = [(''csv_column_name'', ''column1'')]\<rparr>,
      \<lparr>Name = ''Field2'', Tag = [(''csv_column_name'', ''column2'')]\<rparr>,
      \<lparr>Name = ''Field3'', Tag = [(''csv_column_name'', ''column3'')]\<rparr>]"

definition missingTagModelT :: StructType where
  "missingTagModelT =
     [\<lparr>Name = ''Field1'', Tag = []\<rparr>, \<lparr>Name = ''Field2'', Tag = []\<rparr>, \<lparr>Name = ''Field3'', Tag = []\<rparr>]"

definition duplicatedTagModelT :: StructType where
  "duplicatedTagModelT =
     [\<lparr>Name = ''Field1'', Tag = [(''csv_column_name'', ''column1'')]\<rparr>,
      \<lparr>Name = ''Field2'', Tag = [(''csv_column_name'', ''column2'')]\<rparr>,
      \<lparr>Name = ''Field3'', Tag = [(''csv_column_name'', ''column2'')]\<rparr>]"

definition missingElementModelT :: StructType where
  "missingElementModelT =
     [\<lparr>Name = ''Field1'', Tag = [(''csv_column_name'', ''column1'')]\<rparr>,
      \<lparr>Name = ''Field2'', Tag = [(''csv_column_name'', ''column2'')]\<rparr>]"

definition validCsvFile :: "string list list" where
  "validCsvFile =
     [[''column1'', ''column2'', ''column3''],
      [''value1'', ''value2'', ''value3''],
      [''value1'', ''value2'', ''value3'']]"

text \<open>A reader that hands back rows that are already parsed, with no error.\<close>

definition echo_reader :: "string list list reader" where
  "echo_reader buffer = (buffer, None)"

text \<open>The helper states a caller can hold: \<open>New\<close>, then any number of reads.\<close>

inductive reachable :: "'b reader \<Rightarrow> csvHelperImpl \<Rightarrow> bool" for rd :: "'b reader" where
  reachable_New: "reachable rd New"
| reachable_ReadAll: "reachable rd c \<Longrightarrow> reachable rd (ReadAll rd c buffer)"


section \<open>Notions used in the statements and proofs\<close>

text \<open>
  Rearranging the cells of a row: position \<open>k\<close> of the result holds the cell that was at
  position \<open>ps ! k\<close>. \<open>ps\<close> is a permutation of the column indices below \<open>n\<close>.
\<close>

definition permute :: "nat list \<Rightarrow> 'a list \<Rightarrow> 'a list" where
  "permute ps xs = map (\<lambda>i. xs ! i) ps"

definition is_permutation :: "nat list \<Rightarrow> nat \<Rightarrow> bool" where
  "is_permutation ps n = (length ps = n \<and> distinct ps \<and> list_all (\<lambda>i. i < n) ps)"

text \<open>
  The pairs (column tag, field name) that the outer loop of \<open>mapIndexToField\<close> walks
  through, and the field name the loops leave at a column whose header is \<open>cell\<close>: the
  one of the last pair whose tag matches.
\<close>

definition field_pairs :: "StructType \<Rightarrow> (string \<times> string) list" where
  "field_pairs T =
     (let (modelFieldNames, modelFieldsToColumns) = collect_fields T [] []
      in map (\<lambda>i. (map_get modelFieldsToColumns (modelFieldNames ! i), modelFieldNames ! i))
           [0 ..< length modelFieldsToColumns])"

fun last_match :: "unicode_fold \<Rightarrow> (string \<times> string) list \<Rightarrow> string \<Rightarrow> string option" where
  "last_match uf [] cell = None"
| "last_match uf ((col, fname) # ps) cell =
     (case last_match uf ps cell of
        Some r \<Rightarrow> Some r
      | None \<Rightarrow> if EqualFold uf col cell then Some fname else None)"

text \<open>
  The inner loop of \<open>assign\<close> seen as a list of writes, one per cell: the field name
  read from the index map (the empty string without an entry) and the cell. \<open>wr\<close>
  performs one write on the outcome so far.
\<close>

definition field_at :: "(nat \<rightharpoonup> string) \<Rightarrow> nat \<Rightarrow> string" where
  "field_at m j = (case m j of None \<Rightarrow> [] | Some n \<Rightarrow> n)"

fun writes :: "(nat \<rightharpoonup> string) \<Rightarrow> nat \<Rightarrow> string list \<Rightarrow> (string \<times> string) list" where
  "writes m i [] = []"
| "writes m i (d # rest) = (field_at m i, d) # writes m (Suc i) rest"

definition wr :: "string \<times> string \<Rightarrow> struct_value outcome \<Rightarrow> struct_value outcome" where
  "wr x z = (case z of Panic \<Rightarrow> Panic | Return v \<Rightarrow> set_field v (fst x) (snd x))"

section \<open>Auxiliary facts\<close>

lemmas eval_defs =
  Marshal_def validate_def validateIntegrity_def validateModelTags_def NumField_def
  Tag_Get_def csvColumnNameTag_def mapIndexToField_def map_get_def assign_def bind_row_def
  zero_value_def set_field_def fold_eq_byte_def Validate_def Records_def Error_def column_tag_def
  Let_def







lemma map_store_keys:
  "map fst (map_store k v m) = (if k \<in> set (map fst m) then map fst m else map fst m @ [k])"
  by (induction m) force+

lemma map_store_distinct: "distinct (map fst m) \<Longrightarrow> distinct (map fst (map_store k v m))"
  by (simp add: map_store_keys)

lemma map_store_keyset: "fst ` set (map_store k v m) = insert k (fst ` set m)"
  using arg_cong [OF map_store_keys [of k v m], of set] by (auto split: if_splits)

lemma map_of_map_store: "map_of (map_store k v m) = (map_of m)(k \<mapsto> v)"
  by (induction m) (auto simp: fun_eq_iff)

lemma tags_loop_missing:
  "[] \<in> set (map column_tag fs) \<Longrightarrow> tags_loop fs i tags = Inl ErrMissingRequiredTag"
  by (induction fs arbitrary: i tags) (auto simp: column_tag_def Let_def)

lemma tags_loop_ok:
  "[] \<notin> set (map column_tag fs) \<Longrightarrow> distinct (map fst tags) \<Longrightarrow>
   \<exists>tags'. tags_loop fs i tags = Inr tags' \<and> distinct (map fst tags') \<and>
           set (map fst tags') = set (map fst tags) \<union> set (map column_tag fs)"
proof (induction fs arbitrary: i tags)
  case Nil
  then show ?case by simp
next
  case (Cons f fs)
  have ne: "Tag_Get (Tag f) csvColumnNameTag \<noteq> []" using Cons.prems(1) by (auto simp: column_tag_def)
  have "[] \<notin> set (map column_tag fs)" using Cons.prems(1) by auto
  from Cons.IH [OF this map_store_distinct [OF Cons.prems(2)]]
  obtain tags' where t: "tags_loop fs (Suc i) (map_store (Tag_Get (Tag f) csvColumnNameTag) i tags) = Inr tags'"
     "distinct (map fst tags')"
     "set (map fst tags') = set (map fst (map_store (Tag_Get (Tag f) csvColumnNameTag) i tags)) \<union> set (map column_tag fs)"
    by blast
  show ?case using ne t by (auto simp: Let_def map_store_keyset column_tag_def)
qed

lemma validateModelTags_eq:
  "validateModelTags T =
     (if [] \<in> set (map column_tag T) then Some ErrMissingRequiredTag
      else if \<not> distinct (map column_tag T) then Some ErrDuplicatedTag
      else None)"
proof (cases "[] \<in> set (map column_tag T)")
  case True
  then show ?thesis by (simp add: validateModelTags_def tags_loop_missing)
next
  case False
  from tags_loop_ok [OF False, of "[]" 0]
  obtain tags' where t: "tags_loop T 0 [] = Inr tags'" "distinct (map fst tags')"
    "set (map fst tags') = set (map column_tag T)" by auto
  have "length tags' = card (set (map column_tag T))"
    using t(2,3) distinct_card [of "map fst tags'"] by simp
  moreover have "card (set (map column_tag T)) = length T \<longleftrightarrow> distinct (map column_tag T)"
    using card_distinct [of "map column_tag T"] distinct_card [of "map column_tag T"] by auto
  ultimately show ?thesis using False t(1) by (auto simp: validateModelTags_def NumField_def)
qed

lemma validate_New: "validate T cfg New = Some ErrUninitializedRecords"
  by (simp add: validate_def validateIntegrity_def New_def)

lemma validate_stored_error: "err c = Some e \<Longrightarrow> validate T cfg c = Some e"
  by (simp add: validate_def validateIntegrity_def)

lemma step_stored_error:
  "err c = Some e \<Longrightarrow> \<not> is_read x \<Longrightarrow>
   fst (step uf rd T c x) = c \<and> reply_error (snd (step uf rd T c x)) = Some e"
  by (cases x) (simp_all add: Validate_def Records_def Error_def Marshal_def validate_stored_error)

lemma run_stored_error:
  "err c = Some e \<Longrightarrow> \<not> list_ex is_read xs \<Longrightarrow>
   fst (run uf rd T c xs) = c \<and> length (snd (run uf rd T c xs)) = length xs \<and>
   list_all (\<lambda>r. reply_error r = Some e) (snd (run uf rd T c xs))"
proof (induction xs)
  case Nil
  then show ?case by simp
next
  case (Cons x xs)
  have s: "fst (step uf rd T c x) = c" "reply_error (snd (step uf rd T c x)) = Some e"
    using step_stored_error [of c e x uf rd T] Cons.prems by auto
  have r: "fst (run uf rd T c xs) = c \<and> length (snd (run uf rd T c xs)) = length xs \<and>
    list_all (\<lambda>r. reply_error r = Some e) (snd (run uf rd T c xs))"
    using Cons by simp
  show ?case using s r by (simp add: split_beta Let_def)
qed

lemma reachable_err: "reachable rd c \<Longrightarrow> err c \<noteq> Some ErrInvalidHeaderValues"
  by (induction rule: reachable.induct) (auto simp: New_def ReadAll_def)

lemma validate_error_cases:
  "validate T cfg c = Some e \<Longrightarrow>
   err c = Some e \<or> e = ErrUninitializedRecords \<or> e = ErrMissingRequiredTag \<or>
   e = ErrDuplicatedTag \<or> e = ErrInvalidHeaderSize"
  by (auto simp: validate_def validateIntegrity_def validateModelTags_eq Let_def
           split: option.splits if_splits)

lemma Marshal_error_from_validate:
  "Marshal uf T cfg c = Return (out, Some e) \<Longrightarrow>
   validate T \<lparr>ValidationConfig.SkipValidation = MarshalConfig.SkipValidation cfg\<rparr> c = Some e"
  by (auto simp: Marshal_def mapIndexToField_def assign_def split_beta Let_def
           split: option.splits outcome.splits)

lemma validate_None_err: "validate T cfg c = None \<Longrightarrow> err c = None"
  by (auto simp: validate_def validateIntegrity_def split: option.splits if_splits)

lemma step_error_from_validate:
  assumes r: "reply_error (snd (step uf rd T c x)) = Some e"
  shows "\<exists>vcfg. validate T vcfg c = Some e"
proof (cases x)
  case (CallReadAll b)
  then show ?thesis using r by simp
next
  case CallValidate
  then show ?thesis using r by (auto simp: Validate_def split: option.splits)
next
  case CallRecords
  then show ?thesis using r validate_None_err [of T "\<lparr>ValidationConfig.SkipValidation = False\<rparr>" c]
    by (auto simp: Records_def split: option.splits)
next
  case CallError
  then show ?thesis using r validate_None_err [of T "\<lparr>ValidationConfig.SkipValidation = False\<rparr>" c]
    by (auto simp: Error_def split: option.splits)
next
  case (CallMarshal cfg)
  show ?thesis
  proof (cases "Marshal uf T cfg c")
    case Panic
    then show ?thesis using r CallMarshal by simp
  next
    case (Return p)
    then have "Marshal uf T cfg c = Return (fst p, Some e)" using r CallMarshal by (cases p) simp
    then show ?thesis using Marshal_error_from_validate by blast
  qed
qed

section \<open>Scenario A\<close>

text \<open>
  C1. For the struct with the two string fields tagged \<open>name\<close> and \<open>lastname\<close> and the
  stored rows \<open>name,lastname\<close>, \<open>Lucas,Montenegro\<close>, \<open>Vinicius,Vieira\<close>, \<open>Marshal\<close> with
  validation not skipped returns the two values Lucas Montenegro and Vinicius Vieira, in
  that order, and a nil error.
\<close>

theorem C1_scenario_A:
  "Marshal uf Person \<lparr>MarshalConfig.SkipValidation = False\<rparr>
     \<lparr>records = [[''name'', ''lastname''], [''Lucas'', ''Montenegro''], [''Vinicius'', ''Vieira'']],
      err = None\<rparr>
   = Return ([[(''Name'', ''Lucas''), (''LastName'', ''Montenegro'')],
              [(''Name'', ''Vinicius''), (''LastName'', ''Vieira'')]], None)"
  by (simp add: Person_def eval_defs)

section \<open>Before any read\<close>

text \<open>
  C5. On the helper that \<open>New\<close> creates, \<open>Validate\<close>, \<open>Records\<close>, \<open>Error\<close> and \<open>Marshal\<close>
  (with any configuration) all fail with \<open>ErrUninitializedRecords\<close>, for every struct type.
\<close>

theorem C5_uninitialized:
  "Validate T New = (False, Some ErrUninitializedRecords) \<and>
   Records T New = ([], Some ErrUninitializedRecords) \<and>
   Error T New = Some ErrUninitializedRecords \<and>
   Marshal uf T cfg New = Return ([], Some ErrUninitializedRecords)"
  by (simp add: Validate_def Records_def Error_def Marshal_def validate_New)

section \<open>The stored error\<close>

text \<open>
  C6. When the stored error is not nil, each of the four accessors returns that very error,
  whatever the records and the struct type are; any sequence of accessor calls leaves the
  helper as it was and every reply carries the stored error; a read replaces the stored
  error by the reader's.
\<close>

theorem C6_sticky_error:
  assumes "err c = Some e"
  shows "Validate T c = (False, Some e) \<and>
         Records T c = ([], Some e) \<and>
         Error T c = Some e \<and>
         Marshal uf T cfg c = Return ([], Some e) \<and>
         (\<forall>xs. \<not> list_ex is_read xs \<longrightarrow>
            fst (run uf rd T c xs) = c \<and>
            length (snd (run uf rd T c xs)) = length xs \<and>
            list_all (\<lambda>r. reply_error r = Some e) (snd (run uf rd T c xs))) \<and>
         err (fst (step uf rd T c (CallReadAll buffer))) = map_option ReaderError (snd (rd buffer))"
proof -
  have v: "validate T vcfg c = Some e" for vcfg
    using assms by (rule validate_stored_error)
  have calls: "\<forall>xs. \<not> list_ex is_read xs \<longrightarrow>
      fst (run uf rd T c xs) = c \<and>
      length (snd (run uf rd T c xs)) = length xs \<and>
      list_all (\<lambda>r. reply_error r = Some e) (snd (run uf rd T c xs))"
    using run_stored_error [OF assms] by blast
  have rd: "err (fst (step uf rd T c (CallReadAll buffer))) = map_option ReaderError (snd (rd buffer))"
    by (simp add: ReadAll_def)
  show ?thesis
    using calls rd by (simp add: Validate_def Records_def Error_def Marshal_def v)
qed

theorem C6_sticky_error_witness:
  "err \<lparr>records = [], err = Some (ReaderError ''wrong number of fields'')\<rparr>
     = Some (ReaderError ''wrong number of fields'') \<and>
   Marshal exact_tail Person \<lparr>MarshalConfig.SkipValidation = True\<rparr>
     \<lparr>records = [], err = Some (ReaderError ''wrong number of fields'')\<rparr>
     = Return ([], Some (ReaderError ''wrong number of fields'')) \<and>
   list_all (\<lambda>r. reply_error r = Some (ReaderError ''wrong number of fields''))
     (snd (run exact_tail echo_reader Person \<lparr>records = [], err = Some (ReaderError ''wrong number of fields'')\<rparr>
        [CallError, CallRecords, CallValidate, CallError]))"
proof -
  have h: "err \<lparr>records = [], err = Some (ReaderError ''wrong number of fields'')\<rparr>
     = Some (ReaderError ''wrong number of fields'')" by simp
  have n: "\<not> list_ex is_read [CallError, CallRecords, CallValidate, CallError :: string list list call]"
    by simp
  show ?thesis
    using h n C6_sticky_error [OF h, where T = Person and uf = exact_tail and rd = echo_reader
        and cfg = "\<lparr>MarshalConfig.SkipValidation = True\<rparr>"]
    by blast
qed

section \<open>Order of the schema checks\<close>

text \<open>
  C7. When the integrity check has passed and validation is not skipped, \<open>validate\<close>
  answers \<open>ErrMissingRequiredTag\<close> if some field has an empty or absent column tag;
  otherwise \<open>ErrDuplicatedTag\<close> if two fields share a tag; otherwise
  \<open>ErrInvalidHeaderSize\<close> if the header row's length differs from the number of fields;
  otherwise nil.
\<close>

theorem C7_schema_error_order:
  assumes "validateIntegrity c = None"
  shows "validate T \<lparr>ValidationConfig.SkipValidation = False\<rparr> c =
           (if \<exists>f \<in> set T. column_tag f = [] then Some ErrMissingRequiredTag
            else if \<not> distinct (map column_tag T) then Some ErrDuplicatedTag
            else if length (records c ! 0) \<noteq> NumField T then Some ErrInvalidHeaderSize
            else None)"
proof -
  have "([] \<in> set (map column_tag T)) = (\<exists>f \<in> set T. column_tag f = [])" by force
  then show ?thesis using assms by (simp add: validate_def validateModelTags_eq Let_def)
qed

theorem C7_schema_error_order_witness:
  "validateIntegrity \<lparr>records = validCsvFile, err = None\<rparr> = None \<and>
   validate missingTagModelT \<lparr>ValidationConfig.SkipValidation = False\<rparr>
     \<lparr>records = validCsvFile, err = None\<rparr> = Some ErrMissingRequiredTag \<and>
   validate duplicatedTagModelT \<lparr>ValidationConfig.SkipValidation = False\<rparr>
     \<lparr>records = validCsvFile, err = None\<rparr> = Some ErrDuplicatedTag \<and>
   validate missingElementModelT \<lparr>ValidationConfig.SkipValidation = False\<rparr>
     \<lparr>records = validCsvFile, err = None\<rparr> = Some ErrInvalidHeaderSize"
proof -
  have h: "validateIntegrity \<lparr>records = validCsvFile, err = None\<rparr> = None"
    by (simp add: validateIntegrity_def validCsvFile_def)
  show ?thesis
    using h C7_schema_error_order [OF h, of missingTagModelT]
      C7_schema_error_order [OF h, of duplicatedTagModelT]
      C7_schema_error_order [OF h, of missingElementModelT]
    by (simp add: missingTagModelT_def duplicatedTagModelT_def missingElementModelT_def
          validCsvFile_def column_tag_def Tag_Get_def csvColumnNameTag_def NumField_def)
qed

section \<open>Reading returns a new handle\<close>

text \<open>
  C8. \<open>ReadAll\<close> through any handle, on any heap and any input, leaves the heap as it
  was, so the helper seen through the original handle is unchanged, and returns a handle
  whose helper holds the rows and the error the reader produced.
\<close>

theorem C8_read_copy:
  "fst (ReadAll_handle rd hp h buffer) = hp \<and>
   load (fst (ReadAll_handle rd hp h buffer)) h = load hp h \<and>
   records (load (fst (ReadAll_handle rd hp h buffer)) (snd (ReadAll_handle rd hp h buffer)))
     = fst (rd buffer) \<and>
   err (load (fst (ReadAll_handle rd hp h buffer)) (snd (ReadAll_handle rd hp h buffer)))
     = map_option ReaderError (snd (rd buffer))"
  by (simp add: ReadAll_handle_def load_def ReadAll_def)

section \<open>Header contents are not validated\<close>

text \<open>
  C10. Full validation looks at the header row's length only: when every column tag is
  non-empty, the tags are pairwise distinct, no error is stored and the header row has as
  many cells as the struct has fields, \<open>Validate\<close> succeeds whatever the header cells
  are. And on every helper a caller can reach from \<open>New\<close> by reads, no operation returns
  \<open>ErrInvalidHeaderValues\<close>.
\<close>

theorem C10_header_contents_unchecked:
  "([] \<notin> set (map column_tag T) \<and> distinct (map column_tag T) \<and> err c = None \<and>
    records c \<noteq> [] \<and> length (records c ! 0) = NumField T
      \<longrightarrow> Validate T c = (True, None)) \<and>
   (reachable rd c' \<longrightarrow>
      (\<forall>x. reply_error (snd (step uf rd T' c' x)) \<noteq> Some ErrInvalidHeaderValues))"
proof (intro conjI impI allI)
  assume a: "[] \<notin> set (map column_tag T) \<and> distinct (map column_tag T) \<and> err c = None \<and>
    records c \<noteq> [] \<and> length (records c ! 0) = NumField T"
  then show "Validate T c = (True, None)"
    by (simp add: Validate_def validate_def validateIntegrity_def validateModelTags_eq)
next
  fix x
  assume r: "reachable rd c'"
  show "reply_error (snd (step uf rd T' c' x)) \<noteq> Some ErrInvalidHeaderValues"
  proof
    assume "reply_error (snd (step uf rd T' c' x)) = Some ErrInvalidHeaderValues"
    then obtain vcfg where "validate T' vcfg c' = Some ErrInvalidHeaderValues"
      using step_error_from_validate by blast
    then show False using validate_error_cases [of T' vcfg c' ErrInvalidHeaderValues] reachable_err [OF r]
      by simp
  qed
qed

theorem C10_header_contents_unchecked_witness:
  "Validate Person \<lparr>records = [[''city'', ''country''], [''Recife'', ''Brasil'']], err = None\<rparr>
     = (True, None) \<and>
   reachable echo_reader (ReadAll echo_reader New [[''city'', ''country'']]) \<and>
   reply_error (snd (step exact_tail echo_reader Person (ReadAll echo_reader New [[''city'', ''country'']])
      CallError)) \<noteq> Some ErrInvalidHeaderValues"
proof -
  have r: "reachable echo_reader (ReadAll echo_reader New [[''city'', ''country'']])"
    by (rule reachable_ReadAll [OF reachable_New])
  have h: "[] \<notin> set (map column_tag Person) \<and> distinct (map column_tag Person) \<and>
     err \<lparr>records = [[''city'', ''country''], [''Recife'', ''Brasil'']], err = None\<rparr> = None \<and>
     records \<lparr>records = [[''city'', ''country''], [''Recife'', ''Brasil'']], err = None\<rparr> \<noteq> [] \<and>
     length (records \<lparr>records = [[''city'', ''country''], [''Recife'', ''Brasil'']], err = None\<rparr> ! 0)
       = NumField Person"
    by (simp add: Person_def column_tag_def Tag_Get_def csvColumnNameTag_def NumField_def)
  show ?thesis
    using r h
      C10_header_contents_unchecked [where T = Person and T' = Person and rd = echo_reader
        and uf = exact_tail
        and c = "\<lparr>records = [[''city'', ''country''], [''Recife'', ''Brasil'']], err = None\<rparr>"
        and c' = "ReadAll echo_reader New [[''city'', ''country'']]"]
    by blast
qed

section \<open>One value per data row\<close>

lemma assign_rows_spec:
  "0 < i \<Longrightarrow> assign_rows T m i rows out = Return res \<Longrightarrow>
   \<exists>news. res = out @ news \<and> list_all2 (\<lambda>row inst. bind_row T m row = Return inst) rows news"
proof (induction rows arbitrary: i out)
  case Nil
  then show ?case by simp
next
  case (Cons row rows)
  from Cons.prems obtain model where
    b: "bind_row T m row = Return model" and
    r: "assign_rows T m (Suc i) rows (out @ [model]) = Return res"
    by (auto split: outcome.splits)
  from Cons.IH [OF _ r] obtain news where
    "res = (out @ [model]) @ news"
    "list_all2 (\<lambda>row inst. bind_row T m row = Return inst) rows news"
    by auto
  then have "res = out @ (model # news) \<and>
    list_all2 (\<lambda>row inst. bind_row T m row = Return inst) (row # rows) (model # news)"
    using b by simp
  then show ?case by blast
qed

lemma validate_None_records: "validate T cfg c = None \<Longrightarrow> records c \<noteq> []"
  by (auto simp: validate_def validateIntegrity_def split: option.splits if_splits)

text \<open>
  C4. When \<open>Marshal\<close> succeeds, the stored table has a header row, the returned
  sequence has exactly one element less than the table has rows, and its elements are, in
  order, the values bound from the data rows (the rows after the header).
\<close>

theorem C4_one_value_per_data_row:
  assumes "Marshal uf T cfg c = Return (out, None)"
  shows "records c \<noteq> [] \<and> length out = length (records c) - 1 \<and>
         list_all2 (\<lambda>row inst. bind_row T (fst (mapIndexToField uf T (records c))) row = Return inst)
           (tl (records c)) out"
proof -
  let ?m = "fst (mapIndexToField uf T (records c))"
  have v: "validate T \<lparr>ValidationConfig.SkipValidation = MarshalConfig.SkipValidation cfg\<rparr> c = None"
    using assms by (auto simp: Marshal_def split: option.splits)
  then have ne: "records c \<noteq> []" by (rule validate_None_records)
  then obtain h rows where hr: "records c = h # rows" by (cases "records c") auto
  have "assign T (records c) ?m = Return (out, None)"
    using assms v by (auto simp: Marshal_def split: option.splits prod.splits)
  then have "assign_rows T ?m (Suc 0) rows [] = Return out"
    using hr by (auto simp: assign_def split: outcome.splits)
  from assign_rows_spec [OF _ this]
  have l: "list_all2 (\<lambda>row inst. bind_row T ?m row = Return inst) rows out" by auto
  then have "length out = length rows" by (simp add: list_all2_lengthD)
  then show ?thesis using ne l hr by simp
qed

theorem C4_one_value_per_data_row_witness:
  "Marshal exact_tail Person \<lparr>MarshalConfig.SkipValidation = False\<rparr>
     \<lparr>records = [[''lastname'', ''name''], [''Montenegro'', ''Lucas'']], err = None\<rparr>
     = Return ([[(''Name'', ''Lucas''), (''LastName'', ''Montenegro'')]], None) \<and>
   length [[(''Name'', ''Lucas''), (''LastName'', ''Montenegro'')]]
     = length (records \<lparr>records = [[''lastname'', ''name''], [''Montenegro'', ''Lucas'']], err = None\<rparr>) - 1"
proof -
  have h: "Marshal exact_tail Person \<lparr>MarshalConfig.SkipValidation = False\<rparr>
     \<lparr>records = [[''lastname'', ''name''], [''Montenegro'', ''Lucas'']], err = None\<rparr>
     = Return ([[(''Name'', ''Lucas''), (''LastName'', ''Montenegro'')]], None)"
    by (simp add: Person_def eval_defs)
  show ?thesis using h C4_one_value_per_data_row [OF h] by blast
qed

section \<open>Cells at columns without an entry\<close>

text \<open>
  C2. With validation skipped and a header of three cells for the struct of two fields,
  the cell at the third column has no entry in the index map: \<open>assign\<close> reads the empty
  field name, \<open>FieldByName\<close> finds no field and \<open>SetString\<close> panics, where the claim
  says the cell is ignored. With a header of one cell the call succeeds and the field
  without a column keeps the empty string.
\<close>

theorem C2_unmapped_cell_panics:
  "Marshal uf Person \<lparr>MarshalConfig.SkipValidation = True\<rparr>
     \<lparr>records = [[''name'', ''lastname'', ''age''], [''Lucas'', ''Montenegro'', ''30'']],
      err = None\<rparr> = Panic \<and>
   Marshal uf Person \<lparr>MarshalConfig.SkipValidation = True\<rparr>
     \<lparr>records = [[''name''], [''Lucas'']], err = None\<rparr>
     = Return ([[(''Name'', ''Lucas''), (''LastName'', [])]], None)"
  by (simp add: Person_def eval_defs)

section \<open>Header resolution\<close>

lemma scan_headers_apply:
  "scan_headers uf col fname j0 hs m k =
     (if j0 \<le> k \<and> k < j0 + length hs \<and> EqualFold uf col (hs ! (k - j0)) then Some fname else m k)"
proof (induction hs arbitrary: j0 m)
  case Nil
  then show ?case by auto
next
  case (Cons header hs)
  have "scan_headers uf col fname j0 (header # hs) m k =
        scan_headers uf col fname (Suc j0) hs
          (if EqualFold uf col header then m(j0 \<mapsto> fname) else m) k"
    by simp
  also have "\<dots> =
      (if Suc j0 \<le> k \<and> k < Suc j0 + length hs \<and> EqualFold uf col (hs ! (k - Suc j0))
       then Some fname else (if EqualFold uf col header then m(j0 \<mapsto> fname) else m) k)"
    by (rule Cons.IH)
  also have "\<dots> =
      (if j0 \<le> k \<and> k < j0 + length (header # hs) \<and> EqualFold uf col ((header # hs) ! (k - j0))
       then Some fname else m k)"
    by (cases "k = j0") (auto simp: nth_Cons' Suc_le_eq)
  finally show ?case .
qed

lemma resolve_apply:
  "foldl (\<lambda>m p. scan_headers uf (fst p) (snd p) 0 h m) m0 ps j =
     (if j < length h then (case last_match uf ps (h ! j) of Some r \<Rightarrow> Some r | None \<Rightarrow> m0 j)
      else m0 j)"
proof (induction ps arbitrary: m0)
  case Nil
  then show ?case by simp
next
  case (Cons p ps)
  obtain col fname where p: "p = (col, fname)" by (cases p)
  have "foldl (\<lambda>m p. scan_headers uf (fst p) (snd p) 0 h m) m0 (p # ps) j =
        foldl (\<lambda>m p. scan_headers uf (fst p) (snd p) 0 h m) (scan_headers uf col fname 0 h m0) ps j"
    by (simp add: p)
  also have "\<dots> = (if j < length h
       then (case last_match uf ps (h ! j) of Some r \<Rightarrow> Some r
             | None \<Rightarrow> scan_headers uf col fname 0 h m0 j)
       else scan_headers uf col fname 0 h m0 j)"
    by (rule Cons.IH)
  also have "\<dots> = (if j < length h
       then (case last_match uf (p # ps) (h ! j) of Some r \<Rightarrow> Some r | None \<Rightarrow> m0 j)
       else m0 j)"
    by (simp add: p scan_headers_apply split: option.splits)
  finally show ?case .
qed

lemma mapIndexToField_apply:
  "fst (mapIndexToField uf T (h # rows)) j =
     (if j < length h then last_match uf (field_pairs T) (h ! j) else None)"
proof -
  obtain names cols where c: "collect_fields T [] [] = (names, cols)" by (cases "collect_fields T [] []")
  have "fst (mapIndexToField uf T (h # rows)) =
      foldl (\<lambda>m p. scan_headers uf (fst p) (snd p) 0 h m) Map.empty (field_pairs T)"
    by (simp add: mapIndexToField_def field_pairs_def c foldl_map)
  then show ?thesis by (simp add: resolve_apply split: option.splits)
qed

lemma mapIndexToField_no_error: "snd (mapIndexToField uf T csv) = None"
  by (simp add: mapIndexToField_def split_beta)

lemma map_store_fresh: "k \<notin> fst ` set m \<Longrightarrow> map_store k v m = m @ [(k, v)]"
  by (induction m) auto

lemma collect_fields_distinct:
  "distinct (map fst cols @ map Name T) \<Longrightarrow>
   collect_fields T names cols =
     (names @ map Name T, cols @ map (\<lambda>f. (Name f, column_tag f)) T)"
proof (induction T arbitrary: names cols)
  case Nil
  then show ?case by simp
next
  case (Cons f T)
  have fresh: "Name f \<notin> fst ` set cols" using Cons.prems by auto
  have d: "distinct (map fst (cols @ [(Name f, column_tag f)]) @ map Name T)"
    using Cons.prems by auto
  show ?case
    using Cons.IH [OF d, of "names @ [Name f]"]
    by (simp add: Let_def map_store_fresh [OF fresh] column_tag_def)
qed

lemma field_pairs_distinct:
  assumes "distinct (map Name T)"
  shows "field_pairs T = map (\<lambda>f. (column_tag f, Name f)) T"
proof -
  let ?cols = "map (\<lambda>f. (Name f, column_tag f)) T"
  have c: "collect_fields T [] [] = (map Name T, ?cols)"
    using collect_fields_distinct [of "[]" T "[]"] assms by simp
  have g: "map_get ?cols (Name (T ! i)) = column_tag (T ! i)" if "i < length T" for i
  proof -
    have "(Name (T ! i), column_tag (T ! i)) \<in> set ?cols" using that by auto
    moreover have "distinct (map fst ?cols)" using assms by (simp add: comp_def)
    ultimately have "map_of ?cols (Name (T ! i)) = Some (column_tag (T ! i))"
      by (rule map_of_is_SomeI [rotated])
    then show ?thesis by (simp add: map_get_def)
  qed
  have "field_pairs T = map (\<lambda>i. (column_tag (T ! i), Name (T ! i))) [0 ..< length T]"
    by (simp add: field_pairs_def c g)
  also have "\<dots> = map (\<lambda>f. (column_tag f, Name f)) (map (\<lambda>i. T ! i) [0 ..< length T])"
    by simp
  also have "\<dots> = map (\<lambda>f. (column_tag f, Name f)) T"
    by (simp only: map_nth)
  finally show ?thesis .
qed

lemma last_match_None:
  "last_match uf ps cell = None \<longleftrightarrow> (\<forall>p \<in> set ps. \<not> EqualFold uf (fst p) cell)"
  by (induction uf ps cell rule: last_match.induct) (auto split: option.splits)



lemma last_match_Some:
  "last_match uf ps cell = Some fname \<Longrightarrow> \<exists>col. (col, fname) \<in> set ps \<and> EqualFold uf col cell"
  by (induction uf ps cell rule: last_match.induct) (auto split: option.splits if_splits)

lemma map_store_subset: "set (map_store k v m) \<subseteq> insert (k, v) (set m)"
  by (induction m) (auto split: if_splits)

lemma length_map_store: "length (map_store k v m) \<le> Suc (length m)"
  by (induction m) auto

lemma collect_fields_eq:
  "collect_fields T names cols =
     (names @ map Name T, foldl (\<lambda>cs f. map_store (Name f) (column_tag f) cs) cols T)"
  by (induction T arbitrary: names cols) (simp_all add: Let_def column_tag_def)

lemma collected_pairs:
  "(k, v) \<in> set (foldl (\<lambda>cs f. map_store (Name f) (column_tag f) cs) cols T) \<Longrightarrow>
   (k, v) \<in> set cols \<or> (\<exists>f \<in> set T. k = Name f \<and> v = column_tag f)"
proof (induction T arbitrary: cols)
  case Nil
  then show ?case by simp
next
  case (Cons f T)
  from Cons.IH [of "map_store (Name f) (column_tag f) cols"] Cons.prems
  have "(k, v) \<in> set (map_store (Name f) (column_tag f) cols) \<or>
        (\<exists>g \<in> set T. k = Name g \<and> v = column_tag g)"
    by simp
  then show ?case using map_store_subset [of "Name f" "column_tag f" cols] by auto
qed

lemma collected_keys:
  "fst ` set (foldl (\<lambda>cs f. map_store (Name f) (column_tag f) cs) cols T) =
     fst ` set cols \<union> Name ` set T"
  by (induction T arbitrary: cols) (auto simp: map_store_keyset)

lemma collected_length:
  "length (foldl (\<lambda>cs f. map_store (Name f) (column_tag f) cs) cols T) \<le> length cols + length T"
proof (induction T arbitrary: cols)
  case Nil
  then show ?case by simp
next
  case (Cons f T)
  show ?case
    using Cons.IH [of "map_store (Name f) (column_tag f) cols"]
      length_map_store [of "Name f" "column_tag f" cols]
    by simp
qed

lemma field_pairs_sub:
  assumes "(col, fname) \<in> set (field_pairs T)"
  shows "\<exists>f \<in> set T. col = column_tag f \<and> fname = Name f"
proof -
  let ?cols = "foldl (\<lambda>cs f. map_store (Name f) (column_tag f) cs) [] T"
  have c: "collect_fields T [] [] = (map Name T, ?cols)"
    by (simp add: collect_fields_eq)
  from assms obtain i where i: "i < length ?cols"
      "col = map_get ?cols (map Name T ! i)" "fname = map Name T ! i"
    by (auto simp: field_pairs_def c)
  have iT: "i < length T" using i(1) collected_length [of "[]" T] by simp
  then have n: "fname = Name (T ! i)" using i(3) by simp
  have "fname \<in> fst ` set ?cols" using iT n by (simp add: collected_keys)
  then obtain v where v: "map_of ?cols fname = Some v"
    using weak_map_of_SomeI by fastforce
  then have "(fname, v) \<in> set ?cols" by (rule map_of_SomeD)
  then obtain f where f: "f \<in> set T" "fname = Name f" "v = column_tag f"
    using collected_pairs [of fname v "[]" T] by auto
  have "col = v" using i(2,3) v by (simp add: map_get_def)
  then show ?thesis using f by blast
qed






section \<open>Column order\<close>

lemma wr_Panic: "wr x Panic = Panic"
  by (simp add: wr_def)

lemma wr_Return: "wr (k, d) (Return v) = set_field v k d"
  by (simp add: wr_def)

lemma fold_wr_Panic: "fold wr ws Panic = Panic"
  by (induction ws) (simp_all add: wr_Panic)

lemma assign_cells_fold:
  "assign_cells m i row model = fold wr (writes m i row) (Return model)"
proof (induction row arbitrary: i model)
  case Nil
  then show ?case by simp
next
  case (Cons d rest)
  show ?case
  proof (cases "set_field model (field_at m i) d")
    case Panic
    then show ?thesis by (simp add: field_at_def wr_Return fold_wr_Panic)
  next
    case (Return model')
    then show ?thesis using Cons.IH [of "Suc i" model'] by (simp add: field_at_def wr_Return)
  qed
qed

lemma upt_0_Suc: "[0 ..< Suc n] = 0 # map Suc [0 ..< n]"
  by (simp add: upt_conv_Cons map_Suc_upt del: upt_Suc)

lemma writes_map:
  "writes m i row = map (\<lambda>j. (field_at m (i + j), row ! j)) [0 ..< length row]"
proof (induction row arbitrary: i)
  case Nil
  then show ?case by simp
next
  case (Cons d rest)
  have "writes m i (d # rest) =
      (field_at m i, d) # map (\<lambda>j. (field_at m (Suc i + j), rest ! j)) [0 ..< length rest]"
    by (simp add: Cons.IH)
  also have "\<dots> = map (\<lambda>j. (field_at m (i + j), (d # rest) ! j)) [0 ..< Suc (length rest)]"
    by (simp only: upt_0_Suc) (simp add: comp_def)
  finally show ?case by simp
qed

lemma put_field_names: "map fst (put_field k d v) = map fst v"
  by (induction v) auto

lemma put_field_swap:
  "k \<noteq> k' \<Longrightarrow> put_field k d (put_field k' d' v) = put_field k' d' (put_field k d v)"
  by (induction v) auto

lemma is_permutation_mset:
  assumes "is_permutation ps n"
  shows "mset ps = mset [0 ..< n]"
proof -
  have l: "length ps = n" and d: "distinct ps" and b: "set ps \<subseteq> {0 ..< n}"
    using assms by (auto simp: is_permutation_def list_all_iff)
  have "card (set ps) = n" using d l by (simp add: distinct_card)
  then have "set ps = {0 ..< n}" using b by (intro card_subset_eq) auto
  then have "set ps = set [0 ..< n]" by simp
  then show ?thesis
    using d distinct_upt [of 0 n] set_eq_iff_mset_eq_distinct [of ps "[0 ..< n]"] by blast
qed

lemma permute_nth: "k < length ps \<Longrightarrow> permute ps xs ! k = xs ! (ps ! k)"
  by (simp add: permute_def)

lemma length_permute: "length (permute ps xs) = length ps"
  by (simp add: permute_def)

lemma field_pairs_functional:
  "(col, k) \<in> set (field_pairs T) \<Longrightarrow> (col', k) \<in> set (field_pairs T) \<Longrightarrow> col = col'"
  by (auto simp: field_pairs_def split_beta)

lemma wr_keeps_names:
  "(\<forall>v. z = Return v \<longrightarrow> map fst v = ns) \<Longrightarrow> (\<forall>v. wr x z = Return v \<longrightarrow> map fst v = ns)"
  by (cases z) (auto simp: wr_def set_field_def put_field_names split: if_splits)

lemma wr_commute:
  assumes "\<forall>v. z = Return v \<longrightarrow> map fst v = ns"
    and "fst x = fst y \<longrightarrow> x = y \<or> fst x \<notin> set ns"
  shows "wr x (wr y z) = wr y (wr x z)"
proof (cases z)
  case Panic
  then show ?thesis by (simp add: wr_Panic)
next
  case (Return v)
  then have ns: "map fst v = ns" using assms(1) by simp
  obtain k d where x: "x = (k, d)" by (cases x)
  obtain k' d' where y: "y = (k', d')" by (cases y)
  show ?thesis
  proof (cases "k = k'")
    case True
    then show ?thesis using assms(2) ns Return x y
      by (auto simp: wr_Return wr_Panic set_field_def put_field_names)
  next
    case False
    then show ?thesis using ns Return x y
      by (simp add: wr_Return wr_Panic set_field_def put_field_names put_field_swap)
  qed
qed

lemma bind_row_permute:
  assumes ok: "[] \<notin> set (map Name T)"
    and one: "\<forall>f \<in> set T. \<forall>j j'. j < length h \<and> j' < length h \<and>
        EqualFold uf (column_tag f) (h ! j) \<and> EqualFold uf (column_tag f) (h ! j') \<longrightarrow> j = j'"
    and len: "length row = length h"
    and perm: "is_permutation ps (length h)"
  shows "bind_row T (fst (mapIndexToField uf T (permute ps h # rows'))) (permute ps row) =
         bind_row T (fst (mapIndexToField uf T (h # rows))) row"
proof -
  let ?n = "length h"
  let ?m = "fst (mapIndexToField uf T (h # rows))"
  let ?m' = "fst (mapIndexToField uf T (permute ps h # rows'))"
  let ?G = "\<lambda>j. (field_at ?m j, row ! j)"
  let ?P = "\<lambda>z. \<forall>v. z = Return v \<longrightarrow> map fst v = map Name T"
  have lps: "length ps = ?n" using perm by (simp add: is_permutation_def)
  have bound: "ps ! j < ?n" if "j < ?n" for j
    using perm that lps by (auto simp: is_permutation_def list_all_length)
  have m_at: "?m j = last_match uf (field_pairs T) (h ! j)" if "j < ?n" for j
    using that by (simp add: mapIndexToField_apply)
  have m'_at: "?m' j = ?m (ps ! j)" if "j < ?n" for j
    using that bound [OF that] lps
    by (simp add: mapIndexToField_apply length_permute permute_nth)
  have w: "writes ?m 0 row = map ?G [0 ..< ?n]"
    by (simp add: writes_map len)
  have "writes ?m' 0 (permute ps row) =
        map (\<lambda>j. (field_at ?m' j, permute ps row ! j)) [0 ..< ?n]"
    by (simp add: writes_map length_permute lps)
  also have "\<dots> = map (\<lambda>j. ?G (ps ! j)) [0 ..< ?n]"
    by (rule map_cong) (auto simp: field_at_def m'_at permute_nth lps)
  also have "\<dots> = map ?G (map (\<lambda>j. ps ! j) [0 ..< length ps])"
    by (simp add: lps)
  also have "\<dots> = map ?G ps"
    by (simp only: map_nth)
  finally have w': "writes ?m' 0 (permute ps row) = map ?G ps" .
  have ms: "mset (map ?G [0 ..< ?n]) = mset (map ?G ps)"
    using is_permutation_mset [OF perm] by simp
  have inj: "j = j'"
    if j: "j < ?n" and j': "j' < ?n" and same: "field_at ?m j = field_at ?m j'"
      and named: "field_at ?m j \<in> set (map Name T)"
    for j j'
  proof -
    obtain k where k: "?m j = Some k" "field_at ?m j = k"
      using named ok by (cases "?m j") (auto simp: field_at_def)
    have "field_at ?m j' \<in> set (map Name T)" using same named by simp
    then obtain k' where k': "?m j' = Some k'" "field_at ?m j' = k'"
      using ok by (cases "?m j'") (auto simp: field_at_def)
    have "k' = k" using same k(2) k'(2) by simp
    then have lm: "last_match uf (field_pairs T) (h ! j) = Some k"
        "last_match uf (field_pairs T) (h ! j') = Some k"
      using k(1) k'(1) m_at [OF j] m_at [OF j'] by simp_all
    obtain col where c: "(col, k) \<in> set (field_pairs T)" "EqualFold uf col (h ! j)"
      using last_match_Some [OF lm(1)] by blast
    obtain col' where c': "(col', k) \<in> set (field_pairs T)" "EqualFold uf col' (h ! j')"
      using last_match_Some [OF lm(2)] by blast
    have cc: "col' = col" using c'(1) c(1) by (rule field_pairs_functional)
    obtain f where f: "f \<in> set T" "col = column_tag f"
      using field_pairs_sub [OF c(1)] by blast
    show ?thesis using one f c(2) c'(2) cc j j' by blast
  qed
  have "fold wr (map ?G [0 ..< ?n]) (Return (zero_value T)) =
        fold wr (map ?G ps) (Return (zero_value T))"
  proof (rule fold_permuted_eq [where P = ?P])
    show "mset (map ?G [0 ..< ?n]) = mset (map ?G ps)" by (rule ms)
    show "?P (Return (zero_value T))" by (simp add: zero_value_def comp_def)
    show "?P (wr x z)" if "x \<in> set (map ?G [0 ..< ?n])" and pz: "?P z" for x z
      using pz by (rule wr_keeps_names)
    show "wr x (wr y z) = wr y (wr x z)"
      if xin: "x \<in> set (map ?G [0 ..< ?n])" and yin: "y \<in> set (map ?G [0 ..< ?n])"
        and pz: "?P z" for x y z
    proof (rule wr_commute [OF pz])
      obtain j where j: "j < ?n" "x = ?G j" using xin by auto
      obtain j' where j': "j' < ?n" "y = ?G j'" using yin by auto
      show "fst x = fst y \<longrightarrow> x = y \<or> fst x \<notin> set (map Name T)"
        using inj [OF j(1) j'(1)] j(2) j'(2) by auto
    qed
  qed
  then show ?thesis
    by (simp add: bind_row_def assign_cells_fold w w')
qed

lemma assign_rows_cong:
  "(\<forall>row \<in> set rows. bind_row T m' (f row) = bind_row T m row) \<Longrightarrow>
   assign_rows T m' i (map f rows) out = assign_rows T m i rows out"
proof (induction rows arbitrary: i out)
  case Nil
  then show ?case by simp
next
  case (Cons row rows)
  then show ?case by (simp split: outcome.splits)
qed

lemma Marshal_alt:
  "Marshal uf T cfg c =
     (case validate T \<lparr>ValidationConfig.SkipValidation = MarshalConfig.SkipValidation cfg\<rparr> c of
        Some e \<Rightarrow> Return ([], Some e)
      | None \<Rightarrow> assign T (records c) (fst (mapIndexToField uf T (records c))))"
  using mapIndexToField_no_error [of uf T "records c"]
  by (cases "mapIndexToField uf T (records c)") (simp add: Marshal_def split: option.splits)

text \<open>
  C3, as amended. For a struct type whose field names are not empty and a stored table in
  which no field's column tag matches more than one header cell under \<open>EqualFold\<close>, and
  whose data rows have the header's width: permuting the header's cells and, in the same
  way, the cells of every data row leaves the outcome of \<open>Marshal\<close> unchanged, so that
  a successful \<open>Marshal\<close> returns values with the same fields, element by element. This
  holds whatever the rune loop of \<open>EqualFold\<close> answers.
\<close>

theorem C3_column_order_independence:
  assumes ok: "[] \<notin> set (map Name T)"
    and one: "\<forall>f \<in> set T. \<forall>j j'. j < length h \<and> j' < length h \<and>
        EqualFold uf (column_tag f) (h ! j) \<and> EqualFold uf (column_tag f) (h ! j') \<longrightarrow> j = j'"
    and len: "\<forall>row \<in> set rows. length row = length h"
    and perm: "is_permutation ps (length h)"
  shows "Marshal uf T cfg (c\<lparr>records := permute ps h # map (permute ps) rows\<rparr>) =
         Marshal uf T cfg (c\<lparr>records := h # rows\<rparr>)"
proof -
  let ?m = "fst (mapIndexToField uf T (h # rows))"
  let ?m' = "fst (mapIndexToField uf T (permute ps h # map (permute ps) rows))"
  have lps: "length (permute ps h) = length h"
    using perm by (simp add: is_permutation_def length_permute)
  have v: "validate T vcfg (c\<lparr>records := permute ps h # map (permute ps) rows\<rparr>) =
           validate T vcfg (c\<lparr>records := h # rows\<rparr>)" for vcfg
    using lps by (simp add: validate_def validateIntegrity_def Let_def split: option.splits)
  have b: "\<forall>row \<in> set rows. bind_row T ?m' (permute ps row) = bind_row T ?m row"
    using bind_row_permute [OF ok one _ perm] len by blast
  have a: "assign_rows T ?m' (Suc 0) (map (permute ps) rows) [] = assign_rows T ?m (Suc 0) rows []"
    using b by (rule assign_rows_cong)
  have "assign T (permute ps h # map (permute ps) rows) ?m' = assign T (h # rows) ?m"
    using a by (simp add: assign_def)
  then show ?thesis
    by (simp add: Marshal_alt v split: option.splits)
qed

theorem C3_column_order_independence_witness:
  "[] \<notin> set (map Name Person) \<and>
   is_permutation [1, 0] (length [''name'', ''lastname'']) \<and>
   permute [1, 0] [''name'', ''lastname''] = [''lastname'', ''name''] \<and>
   Marshal exact_tail Person \<lparr>MarshalConfig.SkipValidation = False\<rparr>
     \<lparr>records = [[''lastname'', ''name''], [''Montenegro'', ''Lucas'']], err = None\<rparr>
   = Return ([[(''Name'', ''Lucas''), (''LastName'', ''Montenegro'')]], None)"
proof -
  have s: "[] \<notin> set (map Name Person)" by (simp add: Person_def)
  have d: "\<forall>f \<in> set Person. \<forall>j j'. j < length [''name'', ''lastname''] \<and>
      j' < length [''name'', ''lastname''] \<and>
      EqualFold exact_tail (column_tag f) ([''name'', ''lastname''] ! j) \<and>
      EqualFold exact_tail (column_tag f) ([''name'', ''lastname''] ! j') \<longrightarrow> j = j'"
    by (auto simp: Person_def column_tag_def Tag_Get_def csvColumnNameTag_def less_Suc_eq)
  have r: "\<forall>row \<in> set [[''Lucas'', ''Montenegro'']]. length row = length [''name'', ''lastname'']"
    by simp
  have p: "is_permutation [1, 0] (length [''name'', ''lastname''])"
    by (simp add: is_permutation_def)
  have m: "Marshal exact_tail Person \<lparr>MarshalConfig.SkipValidation = False\<rparr>
     (\<lparr>records = [], err = None\<rparr>\<lparr>records := [''name'', ''lastname''] # [[''Lucas'', ''Montenegro'']]\<rparr>)
     = Return ([[(''Name'', ''Lucas''), (''LastName'', ''Montenegro'')]], None)"
    by (simp add: Person_def eval_defs)
  have q: "permute [1, 0] [''name'', ''lastname''] = [''lastname'', ''name'']"
      "permute [1, 0] [''Lucas'', ''Montenegro''] = [''Montenegro'', ''Lucas'']"
    by (simp_all add: permute_def)
  show ?thesis
    using s p q m
      C3_column_order_independence [OF s d r p,
        where cfg = "\<lparr>MarshalConfig.SkipValidation = False\<rparr>"
        and c = "\<lparr>records = [], err = None\<rparr>"]
    by simp
qed

text \<open>
  The claim as stated fails when a header cell repeats: both columns feed the field
  \<open>Name\<close>, the later cell of a row wins, and swapping the two columns changes the value.
\<close>

theorem C3_counterexample:
  "[] \<notin> set (map column_tag Person) \<and> distinct (map column_tag Person) \<and>
   is_permutation [1, 0] 2 \<and>
   Marshal exact_tail Person \<lparr>MarshalConfig.SkipValidation = False\<rparr>
     \<lparr>records = [[''name'', ''name''], [''x'', ''y'']], err = None\<rparr>
     = Return ([[(''Name'', ''y''), (''LastName'', [])]], None) \<and>
   Marshal exact_tail Person \<lparr>MarshalConfig.SkipValidation = False\<rparr>
     \<lparr>records = [permute [1, 0] [''name'', ''name''], permute [1, 0] [''x'', ''y'']], err = None\<rparr>
     = Return ([[(''Name'', ''x''), (''LastName'', [])]], None) \<and>
   Marshal exact_tail Person \<lparr>MarshalConfig.SkipValidation = False\<rparr>
     \<lparr>records = [permute [1, 0] [''name'', ''name''], permute [1, 0] [''x'', ''y'']], err = None\<rparr>
     \<noteq> Marshal exact_tail Person \<lparr>MarshalConfig.SkipValidation = False\<rparr>
         \<lparr>records = [[''name'', ''name''], [''x'', ''y'']], err = None\<rparr>"
  by (simp add: Person_def eval_defs is_permutation_def permute_def)

section \<open>Further properties of binding\<close>

lemma map_of_put_field_other: "k \<noteq> k' \<Longrightarrow> map_of (put_field k' d v) k = map_of v k"
  by (induction v) auto

lemma assign_cells_untouched:
  "assign_cells m i row model = Return inst \<Longrightarrow>
   (\<forall>j. j < length row \<longrightarrow> field_at m (i + j) \<noteq> k) \<Longrightarrow>
   map_of inst k = map_of model k"
proof (induction row arbitrary: i model)
  case Nil
  then show ?case by simp
next
  case (Cons d rest)
  from Cons.prems(1) obtain model' where
    s: "set_field model (field_at m i) d = Return model'" and
    r: "assign_cells m (Suc i) rest model' = Return inst"
    by (auto simp: field_at_def split: outcome.splits)
  have "field_at m i \<noteq> k" using Cons.prems(2) [rule_format, of 0] by simp
  then have m': "map_of model' k = map_of model k"
    using s by (auto simp: set_field_def map_of_put_field_other split: if_splits)
  have "\<forall>j. j < length rest \<longrightarrow> field_at m (Suc i + j) \<noteq> k"
    using Cons.prems(2) by force
  from Cons.IH [OF r this] m' show ?case by simp
qed

lemma map_of_zero_value: "f \<in> set T \<Longrightarrow> map_of (zero_value T) (Name f) = Some []"
  by (induction T) (auto simp: zero_value_def)

text \<open>
  X1. When a row is bound without a panic, a field of the struct that no cell of the row
  is written to holds the empty string, its zero value.
\<close>

theorem unfed_field_keeps_zero_value:
  assumes "bind_row T m row = Return inst"
    and "f \<in> set T"
    and "\<forall>j. j < length row \<longrightarrow> field_at m j \<noteq> Name f"
  shows "map_of inst (Name f) = Some []"
  using assign_cells_untouched [of m 0 row "zero_value T" inst "Name f"] assms
  by (simp add: bind_row_def map_of_zero_value)

theorem unfed_field_keeps_zero_value_witness:
  "bind_row Person (fst (mapIndexToField exact_tail Person [[''name'']])) [''Lucas'']
     = Return [(''Name'', ''Lucas''), (''LastName'', [])] \<and>
   map_of [(''Name'', ''Lucas''), (''LastName'', [])] (Name (Person ! 1)) = Some []"
proof -
  have b: "bind_row Person (fst (mapIndexToField exact_tail Person [[''name'']])) [''Lucas'']
     = Return [(''Name'', ''Lucas''), (''LastName'', [])]"
    by (simp add: Person_def eval_defs)
  have f: "Person ! 1 \<in> set Person" by (simp add: Person_def)
  have u: "\<forall>j. j < length [''Lucas''] \<longrightarrow>
      field_at (fst (mapIndexToField exact_tail Person [[''name'']])) j \<noteq> Name (Person ! 1)"
    by (simp add: Person_def eval_defs field_at_def)
  show ?thesis using b unfed_field_keeps_zero_value [OF b f u] by simp
qed

lemma assign_cells_returns:
  "(\<forall>j. j < length row \<longrightarrow> field_at m (i + j) \<in> set (map fst model)) \<Longrightarrow>
   \<exists>inst. assign_cells m i row model = Return inst"
proof (induction row arbitrary: i model)
  case Nil
  then show ?case by simp
next
  case (Cons d rest)
  have k: "field_at m i \<in> set (map fst model)" using Cons.prems [rule_format, of 0] by simp
  let ?model' = "put_field (field_at m i) d model"
  have s: "set_field model (field_at m i) d = Return ?model'"
    using k by (simp add: set_field_def)
  have "\<forall>j. j < length rest \<longrightarrow> field_at m (Suc i + j) \<in> set (map fst ?model')"
    using Cons.prems by (force simp: put_field_names)
  from Cons.IH [OF this] obtain inst where "assign_cells m (Suc i) rest ?model' = Return inst"
    by blast
  then show ?case using s by (simp add: field_at_def)
qed

lemma assign_rows_returns:
  "(\<forall>row \<in> set rows. \<exists>inst. bind_row T m row = Return inst) \<Longrightarrow> 0 < i \<Longrightarrow>
   \<exists>res. assign_rows T m i rows out = Return res"
proof (induction rows arbitrary: i out)
  case Nil
  then show ?case by simp
next
  case (Cons row rows)
  obtain inst where b: "bind_row T m row = Return inst" using Cons.prems(1) by auto
  have "\<exists>res. assign_rows T m (Suc i) rows (out @ [inst]) = Return res"
    using Cons.IH [of "Suc i" "out @ [inst]"] Cons.prems(1) by simp
  then show ?case using b Cons.prems(2) by simp
qed

lemma last_match_names:
  "last_match uf ps cell = Some k \<Longrightarrow> k \<in> snd ` set ps"
  using last_match_Some by force

text \<open>
  X2. \<open>Marshal\<close> returns, with a nil error and one value per data row, whenever
  validation passes (or is skipped after the integrity check), the field names are
  distinct, every header cell is matched by the column tag of some field under
  \<open>EqualFold\<close>, and no data row is wider than the header.
\<close>

theorem Marshal_returns_when_columns_resolve:
  assumes names: "distinct (map Name T)"
    and v: "validate T \<lparr>ValidationConfig.SkipValidation = MarshalConfig.SkipValidation cfg\<rparr> c = None"
    and recs: "records c = h # rows"
    and cols: "\<forall>j. j < length h \<longrightarrow> (\<exists>f \<in> set T. EqualFold uf (column_tag f) (h ! j))"
    and width: "\<forall>row \<in> set rows. length row \<le> length h"
  shows "\<exists>out. Marshal uf T cfg c = Return (out, None) \<and> length out = length rows"
proof -
  let ?m = "fst (mapIndexToField uf T (h # rows))"
  have fp: "field_pairs T = map (\<lambda>f. (column_tag f, Name f)) T"
    using names by (rule field_pairs_distinct)
  have named: "field_at ?m j \<in> set (map Name T)" if j: "j < length h" for j
  proof -
    obtain f where f: "f \<in> set T" "EqualFold uf (column_tag f) (h ! j)" using cols j by blast
    have "(column_tag f, Name f) \<in> set (field_pairs T)" using f(1) by (simp add: fp)
    then have "\<not> (\<forall>p \<in> set (field_pairs T). \<not> EqualFold uf (fst p) (h ! j))"
      using f(2) by force
    then have "last_match uf (field_pairs T) (h ! j) \<noteq> None"
      by (simp add: last_match_None)
    then obtain k where k: "last_match uf (field_pairs T) (h ! j) = Some k" by auto
    then have "k \<in> set (map Name T)" using last_match_names [OF k] by (auto simp: fp)
    then show ?thesis using k j by (simp add: field_at_def mapIndexToField_apply)
  qed
  have "\<forall>row \<in> set rows. \<exists>inst. bind_row T ?m row = Return inst"
  proof
    fix row assume "row \<in> set rows"
    then have "length row \<le> length h" using width by simp
    then have "\<forall>j. j < length row \<longrightarrow> field_at ?m (0 + j) \<in> set (map fst (zero_value T))"
      using named by (simp add: zero_value_def comp_def)
    then show "\<exists>inst. bind_row T ?m row = Return inst"
      unfolding bind_row_def by (rule assign_cells_returns)
  qed
  then obtain res where res: "assign_rows T ?m (Suc 0) rows [] = Return res"
    using assign_rows_returns [of rows T ?m "Suc 0" "[]"] by auto
  then have m: "Marshal uf T cfg c = Return (res, None)"
    using v recs by (simp add: Marshal_alt assign_def)
  have "length res = length rows"
    using assign_rows_spec [OF _ res] by (auto dest: list_all2_lengthD)
  then show ?thesis using m by simp
qed

theorem Marshal_returns_when_columns_resolve_witness:
  "\<exists>out. Marshal exact_tail Person \<lparr>MarshalConfig.SkipValidation = True\<rparr>
            \<lparr>records = [[''NAME''], [''Lucas''], [''Vinicius'']], err = None\<rparr>
          = Return (out, None) \<and> length out = 2"
proof -
  have n: "distinct (map Name Person)" by (simp add: Person_def)
  have v: "validate Person
      \<lparr>ValidationConfig.SkipValidation =
         MarshalConfig.SkipValidation \<lparr>MarshalConfig.SkipValidation = True\<rparr>\<rparr>
      \<lparr>records = [[''NAME''], [''Lucas''], [''Vinicius'']], err = None\<rparr> = None"
    by (simp add: validate_def validateIntegrity_def)
  have r: "records \<lparr>records = [[''NAME''], [''Lucas''], [''Vinicius'']], err = None\<rparr>
      = [''NAME''] # [[''Lucas''], [''Vinicius'']]" by simp
  have c: "\<forall>j. j < length [''NAME''] \<longrightarrow>
      (\<exists>f \<in> set Person. EqualFold exact_tail (column_tag f) ([''NAME''] ! j))"
    by (simp add: Person_def column_tag_def Tag_Get_def csvColumnNameTag_def fold_eq_byte_def)
  have w: "\<forall>row \<in> set [[''Lucas''], [''Vinicius'']]. length row \<le> length [''NAME'']"
    by simp
  show ?thesis
    using Marshal_returns_when_columns_resolve [OF n v r c w] by (simp add: numeral_2_eq_2)
qed

text \<open>
  X3. Scenario C: a header of four cells for the struct of three fields makes \<open>Marshal\<close>,
  with validation not skipped, return \<open>ErrInvalidHeaderSize\<close>.
\<close>

theorem scenario_C_header_size:
  "Marshal uf validModelT \<lparr>MarshalConfig.SkipValidation = False\<rparr>
     \<lparr>records = [[''column1'', ''column2'', ''column3'', ''invalidColumn''],
                 [''value1'', ''value2'', ''value3'', ''value4'']],
      err = None\<rparr>
   = Return ([], Some ErrInvalidHeaderSize)"
  by (simp add: validModelT_def eval_defs)

end
